theory Spec2Isabelle
  imports Main "HOL-Library.Word" "HOL-Library.Multiset" "HOL-Library.Sublist"
begin

section \<open>Data model\<close>

text \<open>
  The broker keeps its sessions behind pointers (\<^verbatim>\<open>*Session\<close>): a hub's registry and the
  host application share them. A pointer is an address into a heap of session records;
  two sessions are the same instance exactly when their addresses are equal.
\<close>

type_synonym addr = nat
type_synonym byte = "8 word"

text \<open>The frame kinds of the WebSocket library (RFC 6455 opcodes), as the code uses them.\<close>

definition TextMessage :: int where "TextMessage = 1"
definition BinaryMessage :: int where "BinaryMessage = 2"
definition CloseMessage :: int where "CloseMessage = 8"
definition PingMessage :: int where "PingMessage = 9"

text \<open>
  Modelled from the spec: the declaration of the \<^verbatim>\<open>envelope\<close> struct is not among the
  sources. It is the specification's Envelope (kind, payload, target users, optional
  filter) under the field names the code reads and writes: \<^verbatim>\<open>t\<close>, \<^verbatim>\<open>msg\<close>,
  \<^verbatim>\<open>userIds\<close>, \<^verbatim>\<open>filter\<close>. A filter is a predicate of the host application over a
  session pointer; \<open>None\<close> is Go's \<^verbatim>\<open>nil\<close>.
\<close>

record envelope =
  t :: int
  msg :: "byte list"
  userIds :: "string list"
  filter_fn :: "(addr \<Rightarrow> bool) option"

text \<open>
  A Go channel with a buffer: the queued elements (oldest first), the capacity given to
  \<^verbatim>\<open>make\<close> (for a session's queue the configured \<^verbatim>\<open>MessageBufferSize\<close>, whatever
  it is), and whether \<^verbatim>\<open>close\<close> has been called on it.
\<close>

record 'a chan =
  buf :: "'a list"
  cap :: nat
  chan_closed :: bool

datatype panic =
    SendOnClosedChannel
  | CloseOfClosedChannel
  | NilFuncCall
  | MustGetFail string

datatype error =
    WriteChannelFull envelope
  | HubHasClosed string
  | WriteFailed
  | UseOfClosedConn
  | CloseFailed

text \<open>
  A blocking send \<^verbatim>\<open>c <- v\<close>: it panics on a closed channel, enqueues when the buffer
  has room, and otherwise does not return until a receiver makes room.
\<close>

datatype 'a send = SendOk "'a chan" | SendBlocks | SendPanics

definition chan_send :: "'a chan \<Rightarrow> 'a \<Rightarrow> 'a send" where
  "chan_send c v =
     (if chan_closed c then SendPanics
      else if length (buf c) < cap c then SendOk (c\<lparr>buf := buf c @ [v]\<rparr>)
      else SendBlocks)"

text \<open>
  The send of \<^verbatim>\<open>select { case c <- v: default: }\<close>: the same, except that a full
  buffer selects the default branch at once.
\<close>

datatype 'a select_send = Selected "'a chan" | Default | SelectPanics

definition select_send :: "'a chan \<Rightarrow> 'a \<Rightarrow> 'a select_send" where
  "select_send c v =
     (if chan_closed c then SelectPanics
      else if length (buf c) < cap c then Selected (c\<lparr>buf := buf c @ [v]\<rparr>)
      else Default)"

text \<open>\<^verbatim>\<open>close(c)\<close> panics on a channel that is closed already.\<close>

definition chan_close :: "'a chan \<Rightarrow> panic + 'a chan" where
  "chan_close c = (if chan_closed c then Inl CloseOfClosedChannel else Inr (c\<lparr>chan_closed := True\<rparr>))"

text \<open>
  A receive \<^verbatim>\<open>v, ok := <-c\<close>: the oldest element while there is one, then
  \<^verbatim>\<open>ok = false\<close> on a closed channel; on an open, empty channel the case is not ready.
\<close>

datatype 'a recv = RecvOk 'a "'a chan" | RecvClosed | RecvNotReady

definition chan_recv :: "'a chan \<Rightarrow> 'a recv" where
  "chan_recv c =
     (case buf c of
        v # vs \<Rightarrow> RecvOk v (c\<lparr>buf := vs\<rparr>)
      | [] \<Rightarrow> if chan_closed c then RecvClosed else RecvNotReady)"

text \<open>
  The transport connection is the WebSocket library's. What the session code sees of it:
  a frame write succeeds (the frame is on the wire) or returns an error, and so does
  \<^verbatim>\<open>Close\<close>. The environment decides how many further frames the transport accepts
  (\<open>accepts\<close>) and whether closing it reports an error (\<open>close_err\<close>); a closed connection
  accepts nothing.
\<close>

record conn =
  wire :: "(int \<times> byte list) list"
  conn_closed :: bool
  accepts :: nat
  close_err :: bool

definition WriteMessage :: "conn \<Rightarrow> int \<Rightarrow> byte list \<Rightarrow> error option \<times> conn" where
  "WriteMessage c k m =
     (if conn_closed c then (Some UseOfClosedConn, c)
      else if accepts c = 0 then (Some WriteFailed, c)
      else (None, c\<lparr>wire := wire c @ [(k, m)], accepts := accepts c - 1\<rparr>))"

definition conn_Close :: "conn \<Rightarrow> error option \<times> conn" where
  "conn_Close c =
     (if conn_closed c then (Some UseOfClosedConn, c)
      else (if close_err c then Some CloseFailed else None, c\<lparr>conn_closed := True\<rparr>))"

text \<open>
  A value of Go's \<^verbatim>\<open>interface{}\<close> in the session's key-value store: \<^verbatim>\<open>nil\<close>, a
  \<^verbatim>\<open>string\<close>, an \<^verbatim>\<open>int\<close> (64 bits on the usual targets), an \<^verbatim>\<open>int64\<close>, or a value
  of any other dynamic type.
\<close>

datatype val =
    VNil
  | VString string
  | VInt "64 word"
  | VInt64 "64 word"
  | VOther nat

record Session =
  conn :: conn
  "output" :: "envelope chan"
  userId :: string
  appId :: string
  keys :: "string \<rightharpoonup> val"
  params :: "string \<rightharpoonup> string"

text \<open>
  What the program does to the outside, in the order it does it: the host's error
  callback called with a session and an error, a recovered panic printed, and the
  steps of a hub's shutdown and of a session's write loop that other goroutines wait for.
\<close>

datatype event =
    ErrorHandler addr error
  | Println panic
  | StoreClosed
  | SessionClose addr
  | CloseOutput addr
  | AwaitExited addr
  | DeleteKey string
  | HubExited
  | SessionExited addr

text \<open>
  The state the sessions live in: the heap of sessions, whether the broker's
  \<^verbatim>\<open>errorHandler\<close> is set (it is \<^verbatim>\<open>nil\<close> until \<^verbatim>\<open>HandleError\<close> is called), and the
  events so far.
\<close>

record state =
  heap :: "addr \<Rightarrow> Session"
  errorHandler :: bool
  trace :: "event list"

definition set_output :: "addr \<Rightarrow> envelope chan \<Rightarrow> state \<Rightarrow> state" where
  "set_output s c w = w\<lparr>heap := (heap w)(s := (heap w s)\<lparr>output := c\<rparr>)\<rparr>"

definition set_conn :: "addr \<Rightarrow> conn \<Rightarrow> state \<Rightarrow> state" where
  "set_conn s c w = w\<lparr>heap := (heap w)(s := (heap w s)\<lparr>conn := c\<rparr>)\<rparr>"

definition emit :: "event \<Rightarrow> state \<Rightarrow> state" where
  "emit ev w = w\<lparr>trace := trace w @ [ev]\<rparr>"

section \<open>Session: the outbound queue\<close>

text \<open>
  \<^verbatim>\<open>s.booster.errorHandler(s, err)\<close>: the call of a \<^verbatim>\<open>nil\<close> function value panics.
\<close>

definition call_errorHandler :: "addr \<Rightarrow> error \<Rightarrow> state \<Rightarrow> panic + state" where
  "call_errorHandler s err w =
     (if errorHandler w then Inr (emit (ErrorHandler s err) w) else Inl NilFuncCall)"

text \<open>
  \<^verbatim>\<open>writeMessage\<close>: the non-blocking send, under a deferred \<^verbatim>\<open>recover\<close> that prints
  the panic value and lets the function return.
\<close>

definition writeMessage :: "addr \<Rightarrow> envelope \<Rightarrow> state \<Rightarrow> state" where
  "writeMessage s message w =
     (case select_send (output (heap w s)) message of
        Selected c \<Rightarrow> set_output s c w
      | Default \<Rightarrow>
          (case call_errorHandler s (WriteChannelFull message) w of
             Inr w' \<Rightarrow> w'
           | Inl p \<Rightarrow> emit (Println p) w)
      | SelectPanics \<Rightarrow> emit (Println SendOnClosedChannel) w)"

definition Write :: "addr \<Rightarrow> byte list \<Rightarrow> state \<Rightarrow> state" where
  "Write s m w = writeMessage s \<lparr>t = TextMessage, msg = m, userIds = [], filter_fn = None\<rparr> w"

definition WriteBinary :: "addr \<Rightarrow> byte list \<Rightarrow> state \<Rightarrow> state" where
  "WriteBinary s m w = writeMessage s \<lparr>t = BinaryMessage, msg = m, userIds = [], filter_fn = None\<rparr> w"

definition close_envelope :: envelope where
  "close_envelope = \<lparr>t = CloseMessage, msg = [], userIds = [], filter_fn = None\<rparr>"

definition ping_envelope :: envelope where
  "ping_envelope = \<lparr>t = PingMessage, msg = [], userIds = [], filter_fn = None\<rparr>"

definition Close :: "addr \<Rightarrow> state \<Rightarrow> state" where
  "Close s w = writeMessage s close_envelope w"

section \<open>Session: the key-value store\<close>

text \<open>Reading a key a Go map does not hold yields the zero value, \<^verbatim>\<open>nil\<close>.\<close>

definition Get :: "Session \<Rightarrow> string \<Rightarrow> val" where
  "Get s key = (case keys s key of None \<Rightarrow> VNil | Some v \<Rightarrow> v)"

definition Set :: "Session \<Rightarrow> string \<Rightarrow> val \<Rightarrow> Session" where
  "Set s key v = s\<lparr>keys := (keys s)(key \<mapsto> v)\<rparr>"

definition MustGet :: "Session \<Rightarrow> string \<Rightarrow> panic + val" where
  "MustGet s key =
     (let v = Get s key
      in if v = VNil then Inl (MustGetFail (''Session MustGet:'' @ key @ '' fail'')) else Inr v)"

definition GetString :: "Session \<Rightarrow> string \<Rightarrow> string" where
  "GetString s key = (case Get s key of VString v \<Rightarrow> v | _ \<Rightarrow> '''')"

definition GetInt :: "Session \<Rightarrow> string \<Rightarrow> 64 word" where
  "GetInt s key = (case Get s key of VInt v \<Rightarrow> v | _ \<Rightarrow> 0)"

definition GetInt64 :: "Session \<Rightarrow> string \<Rightarrow> 64 word" where
  "GetInt64 s key = (case Get s key of VInt64 v \<Rightarrow> v | _ \<Rightarrow> 0)"

section \<open>Session: the write loop\<close>

text \<open>
  \<^verbatim>\<open>writeRaw\<close> writes one frame and, after a close frame, closes the connection. (The
  write deadline it sets first is wall-clock time; a write that misses it is one of the
  writes the transport refuses.)
\<close>

definition writeRaw :: "addr \<Rightarrow> envelope \<Rightarrow> state \<Rightarrow> error option \<times> state" where
  "writeRaw s message w =
     (case WriteMessage (conn (heap w s)) (t message) (msg message) of
        (Some err, c) \<Rightarrow> (Some err, set_conn s c w)
      | (None, c) \<Rightarrow>
          if t message = CloseMessage then
            (case conn_Close c of
               (Some err, c') \<Rightarrow> (Some err, set_conn s c' w)
             | (None, c') \<Rightarrow> (None, set_conn s c' w))
          else (None, set_conn s c w))"

text \<open>The two helpers drop the error \<^verbatim>\<open>writeRaw\<close> returns.\<close>

definition close :: "addr \<Rightarrow> state \<Rightarrow> state" where
  "close s w = snd (writeRaw s close_envelope w)"

definition ping :: "addr \<Rightarrow> state \<Rightarrow> state" where
  "ping s w = snd (writeRaw s ping_envelope w)"

text \<open>
  One turn of the loop of \<^verbatim>\<open>writePump\<close>. The \<^verbatim>\<open>select\<close> takes the case the
  scheduler offers: the ticker, or the outbound queue (which is not ready while it is open
  and empty: the loop then keeps waiting).
\<close>

datatype select = OnOutput | OnTick

datatype loop = Continue state | Break state | Crash panic state

definition pump_iter :: "select \<Rightarrow> addr \<Rightarrow> state \<Rightarrow> loop" where
  "pump_iter c s w =
     (case c of
        OnTick \<Rightarrow> Continue (ping s w)
      | OnOutput \<Rightarrow>
          (case chan_recv (output (heap w s)) of
             RecvNotReady \<Rightarrow> Continue w
           | RecvClosed \<Rightarrow> Break (close s w)
           | RecvOk message c' \<Rightarrow>
               (case writeRaw s message (set_output s c' w) of
                  (Some err, w') \<Rightarrow>
                    (case call_errorHandler s err w' of
                       Inr w'' \<Rightarrow> Break w''
                     | Inl p \<Rightarrow> Crash p w')
                | (None, w') \<Rightarrow> Continue w')))"

text \<open>
  The loop over the cases the scheduler offers, one per turn. When the cases run out the
  loop is still running. After the loop the session signals \<^verbatim>\<open>exited\<close>; the deferred
  \<^verbatim>\<open>conn.Close()\<close> runs when the function returns or panics, its error dropped.
\<close>

datatype pump = Running state | Exited state | Crashed panic state

fun writePump :: "select list \<Rightarrow> addr \<Rightarrow> state \<Rightarrow> pump" where
  "writePump [] s w = Running w"
| "writePump (c # cs) s w =
     (case pump_iter c s w of
        Continue w' \<Rightarrow> writePump cs s w'
      | Break w' \<Rightarrow>
          (let w1 = emit (SessionExited s) w'
           in Exited (set_conn s (snd (conn_Close (conn (heap w1 s)))) w1))
      | Crash p w' \<Rightarrow> Crashed p (set_conn s (snd (conn_Close (conn (heap w' s)))) w'))"

section \<open>Hub\<close>

text \<open>
  Where the goroutine of \<^verbatim>\<open>Run\<close> is: not started, at its \<^verbatim>\<open>select\<close> (ready to
  receive from the hub's channels), stopped at a channel operation on a session, or
  past the loop and returned.
\<close>

datatype hub_loop = NotStarted | AtSelect | StoppedAt addr | Returned

text \<open>
  The hub. Its channels have no buffer: a send to \<^verbatim>\<open>broadcast\<close> completes when the
  loop, at its \<^verbatim>\<open>select\<close>, receives the envelope. \<open>broadcast\<close> holds the envelope the
  loop has received that way and not dealt with yet. Then the \<^verbatim>\<open>closed\<close> word, the
  registry, and where the loop is.
\<close>

record Hub =
  broadcast :: "envelope list"
  closed :: "32 word"
  sessions :: "string \<rightharpoonup> addr list"
  loop_at :: hub_loop

definition NewHub :: Hub where
  "NewHub = \<lparr>broadcast = [], closed = 0, sessions = Map.empty, loop_at = NotStarted\<rparr>"

definition Closed :: "Hub \<Rightarrow> bool" where
  "Closed h = (if closed h = 1 then True else False)"

text \<open>Reading a key the registry does not hold yields the \<^verbatim>\<open>nil\<close> slice.\<close>

definition lookup :: "Hub \<Rightarrow> string \<Rightarrow> addr list" where
  "lookup h u = (case sessions h u of None \<Rightarrow> [] | Some ss \<Rightarrow> ss)"

text \<open>
  What an operation of the hub's loop comes to: it finishes; or it is stopped at a
  channel operation on a session, a send to a queue that has no room or a receive from
  \<^verbatim>\<open>exited\<close> that no write loop answers (the loop stays there until the other side
  acts); or it panics.
\<close>

datatype 'a outcome = Done 'a | Blocked addr 'a | Panicked panic 'a

text \<open>The inner loop of a broadcast, over one user's sessions.\<close>

fun send_each :: "envelope \<Rightarrow> addr list \<Rightarrow> state \<Rightarrow> state outcome" where
  "send_each e [] w = Done w"
| "send_each e (s # ss) w =
     (if (case filter_fn e of None \<Rightarrow> False | Some f \<Rightarrow> \<not> f s) then send_each e ss w
      else
        (case chan_send (output (heap w s)) e of
           SendOk c \<Rightarrow> send_each e ss (set_output s c w)
         | SendBlocks \<Rightarrow> Blocked s w
         | SendPanics \<Rightarrow> Panicked SendOnClosedChannel w))"

text \<open>The loop over the envelope's user identifiers; an unknown user is skipped.\<close>

fun send_users :: "Hub \<Rightarrow> envelope \<Rightarrow> string list \<Rightarrow> state \<Rightarrow> state outcome" where
  "send_users h e [] w = Done w"
| "send_users h e (u # us) w =
     (case sessions h u of
        None \<Rightarrow> send_users h e us w
      | Some ss \<Rightarrow>
          (case send_each e ss w of
             Done w' \<Rightarrow> send_users h e us w'
           | Blocked s w' \<Rightarrow> Blocked s w'
           | Panicked p w' \<Rightarrow> Panicked p w'))"

text \<open>
  The loop over the whole registry. Go visits the keys of a map in an order of its own
  choosing: \<open>ks\<close> is that order.
\<close>

fun send_all :: "Hub \<Rightarrow> envelope \<Rightarrow> string list \<Rightarrow> state \<Rightarrow> state outcome" where
  "send_all h e [] w = Done w"
| "send_all h e (k # ks) w =
     (case send_each e (lookup h k) w of
        Done w' \<Rightarrow> send_all h e ks w'
      | Blocked s w' \<Rightarrow> Blocked s w'
      | Panicked p w' \<Rightarrow> Panicked p w')"

definition on_broadcast :: "Hub \<Rightarrow> string list \<Rightarrow> envelope \<Rightarrow> state \<Rightarrow> state outcome" where
  "on_broadcast h ks e w =
     (if Closed h then Done w
      else if length (userIds e) > 0 then send_users h e (userIds e) w
      else send_all h e ks w)"

definition on_register :: "Hub \<Rightarrow> addr \<Rightarrow> state \<Rightarrow> Hub" where
  "on_register h s w =
     (if Closed h then h
      else
        (let u = userId (heap w s);
             h1 = (if sessions h u = None then h\<lparr>sessions := (sessions h)(u \<mapsto> [])\<rparr> else h)
         in h1\<lparr>sessions := (sessions h1)(u \<mapsto> lookup h1 u @ [s])\<rparr>))"

text \<open>
  The search of \<^verbatim>\<open>unRegister\<close>: at the first index \<open>i\<close> that holds the very session,
  the slice becomes \<^verbatim>\<open>append(ss[:i], ss[i+1:]...)\<close> and the search ends.
\<close>

fun remove_session :: "addr \<Rightarrow> addr list \<Rightarrow> nat \<Rightarrow> addr list \<Rightarrow> addr list" where
  "remove_session s ss i [] = ss"
| "remove_session s ss i (s1 # rest) =
     (if s1 = s then take i ss @ drop (i + 1) ss else remove_session s ss (i + 1) rest)"

definition on_unRegister :: "Hub \<Rightarrow> addr \<Rightarrow> state \<Rightarrow> Hub" where
  "on_unRegister h s w =
     (if Closed h then h
      else
        (let u = userId (heap w s)
         in case sessions h u of
              None \<Rightarrow> h
            | Some ss \<Rightarrow> h\<lparr>sessions := (sessions h)(u \<mapsto> remove_session s ss 0 ss)\<rparr>))"

text \<open>
  The receive \<^verbatim>\<open><-s.exited\<close>. The channel has no buffer and the session's write loop is
  its only sender, after it has left its loop. If that has happened already, the signal
  is waiting and the receive returns. If not, the hub waits while the write loop runs,
  on the turns \<open>sched\<close> that the scheduler gives it: the receive returns when the write
  loop leaves its loop and signals, the hub is still waiting when the turns run out
  first, and a panic of the write loop ends the program.
\<close>

definition await_exited :: "select list \<Rightarrow> addr \<Rightarrow> state \<Rightarrow> state outcome" where
  "await_exited sched s w =
     (if SessionExited s \<in> set (trace w) then Done (emit (AwaitExited s) w)
      else
        (case writePump sched s w of
           Exited w' \<Rightarrow> Done (emit (AwaitExited s) w')
         | Running w' \<Rightarrow> Blocked s w'
         | Crashed p w' \<Rightarrow> Panicked p w'))"

text \<open>
  The shutdown of one user's sessions: \<^verbatim>\<open>s.Close()\<close>, \<^verbatim>\<open>close(s.output)\<close>, then the
  receive from \<^verbatim>\<open>s.exited\<close>. \<open>sch\<close> gives, for each session, the turns its write loop
  gets while the hub waits for it.
\<close>

fun exit_sessions :: "(addr \<Rightarrow> select list) \<Rightarrow> addr list \<Rightarrow> state \<Rightarrow> state outcome" where
  "exit_sessions sch [] w = Done w"
| "exit_sessions sch (s # ss) w =
     (let w1 = Close s (emit (SessionClose s) w)
      in case chan_close (output (heap w1 s)) of
           Inl p \<Rightarrow> Panicked p w1
         | Inr c \<Rightarrow>
             (case await_exited (sch s) s (emit (CloseOutput s) (set_output s c w1)) of
                Done w2 \<Rightarrow> exit_sessions sch ss w2
              | Blocked a w2 \<Rightarrow> Blocked a w2
              | Panicked p w2 \<Rightarrow> Panicked p w2))"

fun exit_keys ::
  "(addr \<Rightarrow> select list) \<Rightarrow> string list \<Rightarrow> Hub \<Rightarrow> state \<Rightarrow> (Hub \<times> state) outcome" where
  "exit_keys sch [] h w = Done (h, w)"
| "exit_keys sch (key # ks) h w =
     (case exit_sessions sch (lookup h key) w of
        Done w' \<Rightarrow>
          exit_keys sch ks (h\<lparr>sessions := (sessions h)(key := None)\<rparr>) (emit (DeleteKey key) w')
      | Blocked s w' \<Rightarrow> Blocked s (h, w')
      | Panicked p w' \<Rightarrow> Panicked p (h, w'))"

definition on_exit ::
  "Hub \<Rightarrow> string list \<Rightarrow> (addr \<Rightarrow> select list) \<Rightarrow> state \<Rightarrow> (Hub \<times> state) outcome" where
  "on_exit h ks sch w = exit_keys sch ks (h\<lparr>closed := 1\<rparr>) (emit StoreClosed w)"

text \<open>
  What the loop of \<^verbatim>\<open>Run\<close> receives: an exit request, a session to register or to
  unregister, or the envelope it has taken from the broadcast channel. The two cases
  that range over the registry carry the order in which Go visits its keys; the exit
  request carries, too, the turns the sessions' write loops get while the hub waits for
  them. A loop that is stopped, or past its \<^verbatim>\<open>for\<close>, keeps its place in \<open>loop_at\<close>.
\<close>

datatype hub_event =
    Exit "string list" "addr \<Rightarrow> select list"
  | Register addr
  | UnRegister addr
  | Broadcast "string list"

fun Run :: "hub_event list \<Rightarrow> Hub \<Rightarrow> state \<Rightarrow> (Hub \<times> state) outcome" where
  "Run [] h w = Done (h, w)"
| "Run (Exit ks sch # evs) h w =
     (case on_exit h ks sch w of
        Done (h', w') \<Rightarrow> Done (h'\<lparr>loop_at := Returned\<rparr>, emit HubExited w')
      | Blocked s (h', w') \<Rightarrow> Blocked s (h'\<lparr>loop_at := StoppedAt s\<rparr>, w')
      | Panicked p x \<Rightarrow> Panicked p x)"
| "Run (Register s # evs) h w = Run evs (on_register h s w) w"
| "Run (UnRegister s # evs) h w = Run evs (on_unRegister h s w) w"
| "Run (Broadcast ks # evs) h w =
     (case broadcast h of
        [] \<Rightarrow> Run evs h w
      | e # es \<Rightarrow>
          (case on_broadcast h ks e w of
             Done w' \<Rightarrow> Run evs (h\<lparr>broadcast := es\<rparr>) w'
           | Blocked s w' \<Rightarrow> Blocked s (h\<lparr>broadcast := es, loop_at := StoppedAt s\<rparr>, w')
           | Panicked p w' \<Rightarrow> Panicked p (h\<lparr>broadcast := es\<rparr>, w')))"


section \<open>Broker\<close>

text \<open>
  The broker keeps pointers to its hubs (\<^verbatim>\<open>map[string]*Hub\<close>): \<open>hubs\<close> maps an
  application identifier to the address of its hub, \<open>hub_at\<close> is the heap the hubs live
  in, and \<open>next_hub\<close> is the address the next hub is allocated at.
\<close>

record Booster =
  hubs :: "string \<rightharpoonup> addr"
  hub_at :: "addr \<Rightarrow> Hub"
  next_hub :: addr

text \<open>
  \<^verbatim>\<open>getHub\<close>: for an identifier the map does not hold, a new hub is allocated, its loop
  is started (\<^verbatim>\<open>go h.Run()\<close>: the loop goes to its \<^verbatim>\<open>select\<close>), and its pointer is
  stored in the map.
\<close>

definition getHub :: "Booster \<Rightarrow> string \<Rightarrow> addr \<times> Booster" where
  "getHub b app =
     (case hubs b app of
        None \<Rightarrow>
          (let h = next_hub b;
               b1 = b\<lparr>hub_at := (hub_at b)(h := NewHub), next_hub := Suc h\<rparr>;
               b2 = b1\<lparr>hub_at := (hub_at b1)(h := (hub_at b1 h)\<lparr>loop_at := AtSelect\<rparr>)\<rparr>
           in (h, b2\<lparr>hubs := (hubs b2)(app \<mapsto> h)\<rparr>))
      | Some h \<Rightarrow> (h, b))"

text \<open>
  What a call of \<^verbatim>\<open>PushMessage\<close> comes to: it returns its error (or \<^verbatim>\<open>nil\<close>), or it
  stays parked at its send; either way with the broker as the call has left it.
\<close>

datatype call = Returns "error option" Booster | Waits Booster

text \<open>
  The send \<^verbatim>\<open>h.broadcast <- message\<close> on a channel without buffer: it completes when the
  hub's loop is at its \<^verbatim>\<open>select\<close> with nothing in hand, and the loop then holds the
  envelope; otherwise the sender stays parked at the send.
\<close>

definition send_broadcast :: "Hub \<Rightarrow> envelope \<Rightarrow> Hub option" where
  "send_broadcast h message =
     (if loop_at h = AtSelect \<and> broadcast h = [] then Some (h\<lparr>broadcast := [message]\<rparr>) else None)"

definition PushMessage ::
  "Booster \<Rightarrow> string \<Rightarrow> string list \<Rightarrow> byte list \<Rightarrow> (addr \<Rightarrow> bool) option \<Rightarrow> call" where
  "PushMessage b app us m fn =
     (case getHub b app of
        (h, b1) \<Rightarrow>
          if Closed (hub_at b1 h) then Returns (Some (HubHasClosed app)) b1
          else
            (let message = \<lparr>t = TextMessage, msg = m, userIds = us, filter_fn = fn\<rparr>
             in case send_broadcast (hub_at b1 h) message of
                  Some h' \<Rightarrow> Returns None (b1\<lparr>hub_at := (hub_at b1)(h := h')\<rparr>)
                | None \<Rightarrow> Waits b1))"

section \<open>Vocabulary of the properties\<close>

text \<open>The state (and hub) an operation of the loop leaves, whatever its outcome.\<close>

fun state_of :: "'a outcome \<Rightarrow> 'a" where
  "state_of (Done x) = x"
| "state_of (Blocked s x) = x"
| "state_of (Panicked p x) = x"

text \<open>A session passes the envelope's filter: there is none, or it returns true.\<close>

definition accepted :: "envelope \<Rightarrow> addr \<Rightarrow> bool" where
  "accepted e s = (case filter_fn e of None \<Rightarrow> True | Some f \<Rightarrow> f s)"

text \<open>
  The sessions a broadcast sends to, in the order of its loops: one entry for each time
  a session is reached and passes the filter.
\<close>

definition visit_list :: "Hub \<Rightarrow> envelope \<Rightarrow> string list \<Rightarrow> addr list" where
  "visit_list h e us = concat (map (\<lambda>u. filter (accepted e) (lookup h u)) us)"

definition visits :: "Hub \<Rightarrow> string list \<Rightarrow> envelope \<Rightarrow> addr list" where
  "visits h ks e =
     concat (map (\<lambda>u. filter (accepted e) (lookup h u)) (if userIds e = [] then ks else userIds e))"

text \<open>
  The recipients in the specification's words: the sessions registered under a listed
  user identifier (under any, when the list is empty) that pass the filter.
\<close>

definition spec_recipients :: "Hub \<Rightarrow> envelope \<Rightarrow> addr set" where
  "spec_recipients h e =
     {s. accepted e s \<and> (\<exists>u. (userIds e = [] \<or> u \<in> set (userIds e)) \<and> s \<in> set (lookup h u))}"

text \<open>Appending an envelope to a session's queue, and to the queues of a list of sessions.\<close>

definition enqueue :: "envelope \<Rightarrow> addr \<Rightarrow> state \<Rightarrow> state" where
  "enqueue e s w = set_output s ((output (heap w s))\<lparr>buf := buf (output (heap w s)) @ [e]\<rparr>) w"

fun deliver :: "envelope \<Rightarrow> addr list \<Rightarrow> state \<Rightarrow> state" where
  "deliver e [] w = w"
| "deliver e (s # ss) w = deliver e ss (enqueue e s w)"

text \<open>
  The queues of the listed sessions are open and have a free slot for every time the
  session is listed.
\<close>

definition has_room :: "state \<Rightarrow> addr list \<Rightarrow> bool" where
  "has_room w ds =
     (\<forall>a \<in> set ds. \<not> chan_closed (output (heap w a))
        \<and> length (buf (output (heap w a))) + count_list ds a \<le> cap (output (heap w a)))"

text \<open>The sessions a sequence of events registers, and those it unregisters, in order.\<close>

fun registered :: "hub_event list \<Rightarrow> addr list" where
  "registered [] = []"
| "registered (Register s # evs) = s # registered evs"
| "registered (ev # evs) = registered evs"

fun unregistered :: "hub_event list \<Rightarrow> addr list" where
  "unregistered [] = []"
| "unregistered (UnRegister s # evs) = s # unregistered evs"
| "unregistered (ev # evs) = unregistered evs"

text \<open>
  The order in which \<^verbatim>\<open>HandleWs\<close> produces the two events for a session: it sends the
  session to \<^verbatim>\<open>register\<close> and, when the read loop has ended, to \<^verbatim>\<open>unRegister\<close>. A
  sequence of register and unregister events is \<open>paired\<close> from the sessions \<open>live\<close>
  registered so far when every unregister names a session registered at that moment.
\<close>

fun paired :: "addr list \<Rightarrow> hub_event list \<Rightarrow> bool" where
  "paired live [] = True"
| "paired live (Register s # evs) = paired (s # live) evs"
| "paired live (UnRegister s # evs) = (s \<in> set live \<and> paired (remove1 s live) evs)"
| "paired live (ev # evs) = False"

text \<open>An open hub whose registry holds, under every user, that user's sessions of \<open>live\<close>.\<close>

definition holds :: "state \<Rightarrow> Hub \<Rightarrow> addr multiset \<Rightarrow> bool" where
  "holds w h live =
     (\<not> Closed h \<and> (\<forall>u. mset (lookup h u) = filter_mset (\<lambda>s. userId (heap w s) = u) live))"










section \<open>Example states\<close>

text \<open>
  A healthy connection that accepts two more frames, a text envelope, and a session of
  user a with an empty queue of capacity 1 and a few keys in its store.
\<close>

definition open_conn :: conn where
  "open_conn = \<lparr>wire = [], conn_closed = False, accepts = 2, close_err = False\<rparr>"

definition hello :: envelope where
  "hello = \<lparr>t = TextMessage, msg = [104, 105], userIds = [], filter_fn = None\<rparr>"

definition session_kv :: Session where
  "session_kv = \<lparr>conn = open_conn, output = \<lparr>buf = [], cap = 1, chan_closed = False\<rparr>,
     userId = ''a'', appId = ''app'',
     keys = [''name'' \<mapsto> VString ''bob'', ''n'' \<mapsto> VInt 7, ''big'' \<mapsto> VInt64 9, ''nil'' \<mapsto> VNil],
     params = Map.empty\<rparr>"

text \<open>
  Queues in the states a write can meet: session 1's is open and full, session 2's is
  closed and full, session 3's is closed with room; every other session's is open and
  empty. An error callback is set.
\<close>

definition session_full :: Session where
  "session_full = session_kv\<lparr>output := \<lparr>buf = [hello], cap = 1, chan_closed = False\<rparr>\<rparr>"

definition session_shut :: Session where
  "session_shut = session_kv\<lparr>output := \<lparr>buf = [hello], cap = 1, chan_closed = True\<rparr>\<rparr>"

definition session_shut_room :: Session where
  "session_shut_room = session_kv\<lparr>output := \<lparr>buf = [hello], cap = 2, chan_closed = True\<rparr>\<rparr>"

definition queues :: state where
  "queues = \<lparr>heap = (\<lambda>_. session_kv)(1 := session_full, 2 := session_shut, 3 := session_shut_room),
     errorHandler = True, trace = []\<rparr>"

text \<open>
  The specification's scenario: sessions 1 and 2 of user a and session 3 of user b, all
  with empty queues; an envelope for user a and for a user the registry does not know,
  with a filter that rejects session 2.
\<close>

definition hub_three :: Hub where
  "hub_three = \<lparr>broadcast = [], closed = 0, sessions = [''a'' \<mapsto> [1, 2], ''b'' \<mapsto> [3]],
     loop_at = AtSelect\<rparr>"

definition three :: state where
  "three = \<lparr>heap = (\<lambda>_. session_kv)(3 := session_kv\<lparr>userId := ''b''\<rparr>), errorHandler = True, trace = []\<rparr>"

definition to_a :: envelope where
  "to_a = \<lparr>t = TextMessage, msg = [104, 105], userIds = [''a'', ''zed''], filter_fn = Some (\<lambda>s. s \<noteq> 2)\<rparr>"

text \<open>
  A hub whose only session, 1, has the full queue of \<open>queues\<close>; and a hub with two
  sessions of user a, session 1 with that full queue and session 0 with an empty one.
\<close>

definition hub_full :: Hub where
  "hub_full = \<lparr>broadcast = [], closed = 0, sessions = [''a'' \<mapsto> [1]], loop_at = AtSelect\<rparr>"


text \<open>Three sessions connect, and the second disconnects.\<close>

definition scenario :: "hub_event list" where
  "scenario = [Register 1, Register 2, Register 3, UnRegister 2]"

text \<open>
  A broker with an open hub whose loop is at its \<^verbatim>\<open>select\<close> and a hub that has been
  shut down; the same broker with, in place of the open hub, the hub \<open>hub_full\<close> as a
  broadcast leaves it on the state \<open>queues\<close>: open, its loop stopped at the send to
  session 1.
\<close>

definition broker :: Booster where
  "broker = \<lparr>hubs = [''chat'' \<mapsto> 0, ''old'' \<mapsto> 1],
     hub_at = (\<lambda>_. NewHub)(0 := hub_three,
       1 := hub_three\<lparr>closed := 1, sessions := Map.empty, loop_at := Returned\<rparr>),
     next_hub = 2\<rparr>"



text \<open>
  Sessions whose transport refuses every write: with an empty queue, and with one
  envelope waiting.
\<close>

definition broken :: state where
  "broken = \<lparr>heap = (\<lambda>_. session_kv\<lparr>conn := open_conn\<lparr>accepts := 0\<rparr>\<rparr>), errorHandler = True, trace = []\<rparr>"

definition failing :: state where
  "failing = \<lparr>heap = (\<lambda>_. session_kv\<lparr>conn := open_conn\<lparr>accepts := 0\<rparr>,
       output := \<lparr>buf = [hello], cap = 1, chan_closed = False\<rparr>\<rparr>), errorHandler = True, trace = []\<rparr>"

section \<open>Properties\<close>

subsection \<open>The key-value store\<close>

text \<open>
  C9. \<^verbatim>\<open>MustGet\<close> panics when the key is absent (and, the store holding \<^verbatim>\<open>nil\<close>
  under a key, there too); \<^verbatim>\<open>GetString\<close>, \<^verbatim>\<open>GetInt\<close> and \<^verbatim>\<open>GetInt64\<close> return
  the zero value when the key is absent or holds a value of another type, and the stored
  value when it has their type.
\<close>

theorem kv_getters:
  "(keys s key = None \<longrightarrow>
      MustGet s key = Inl (MustGetFail (''Session MustGet:'' @ key @ '' fail''))
      \<and> GetString s key = '''' \<and> GetInt s key = 0 \<and> GetInt64 s key = 0)
   \<and> (\<forall>v. keys s key = Some v \<longrightarrow>
         GetString s key = (case v of VString x \<Rightarrow> x | _ \<Rightarrow> '''')
         \<and> GetInt s key = (case v of VInt x \<Rightarrow> x | _ \<Rightarrow> 0)
         \<and> GetInt64 s key = (case v of VInt64 x \<Rightarrow> x | _ \<Rightarrow> 0)
         \<and> MustGet s key =
             (if v = VNil then Inl (MustGetFail (''Session MustGet:'' @ key @ '' fail'')) else Inr v))"
  by (simp add: MustGet_def GetString_def GetInt_def GetInt64_def Get_def)

theorem kv_getters_witness:
  "keys session_kv ''age'' = None
   \<and> MustGet session_kv ''age'' = Inl (MustGetFail ''Session MustGet:age fail'')
   \<and> GetString session_kv ''age'' = '''' \<and> GetInt session_kv ''age'' = 0
   \<and> GetInt64 session_kv ''age'' = 0
   \<and> keys session_kv ''name'' = Some (VString ''bob'')
   \<and> GetString session_kv ''name'' = ''bob'' \<and> GetInt session_kv ''name'' = 0
   \<and> GetInt64 session_kv ''name'' = 0
   \<and> MustGet session_kv ''name'' = Inr (VString ''bob'')"
proof -
  have a: "keys session_kv ''age'' = None" by (simp add: session_kv_def)
  have n: "keys session_kv ''name'' = Some (VString ''bob'')" by (simp add: session_kv_def)
  show ?thesis
    using a n kv_getters [of session_kv "''age''"] kv_getters [of session_kv "''name''"]
    by simp
qed

subsection \<open>Writing to a session\<close>

lemma writeMessage_cases:
  "writeMessage s e w =
     (if chan_closed (output (heap w s)) then emit (Println SendOnClosedChannel) w
      else if length (buf (output (heap w s))) < cap (output (heap w s))
      then set_output s ((output (heap w s))\<lparr>buf := buf (output (heap w s)) @ [e]\<rparr>) w
      else if errorHandler w then emit (ErrorHandler s (WriteChannelFull e)) w
      else emit (Println NilFuncCall) w)"
  by (simp add: writeMessage_def select_send_def call_errorHandler_def)

text \<open>
  C3, as amended. \<^verbatim>\<open>Write\<close> and \<^verbatim>\<open>WriteBinary\<close> always return. On an open queue
  with room the envelope is appended and nothing is reported. On an open, full queue the
  queue is unchanged and the error callback, when one is set, is called once with the
  "write channel full" error that holds the dropped envelope; with no callback set the
  call panics, and the panic is recovered and printed. On a closed queue the send
  panics, the panic is recovered and printed, the queue is unchanged and the error
  callback is not called.
\<close>

theorem write_never_blocks:
  assumes "f = Write \<and> k = TextMessage \<or> f = WriteBinary \<and> k = BinaryMessage"
  shows "(\<not> chan_closed (output (heap w s)) \<and> length (buf (output (heap w s))) < cap (output (heap w s)) \<longrightarrow>
            heap (f s m w) = (heap w)(s := (heap w s)\<lparr>output := (output (heap w s))\<lparr>buf := buf (output (heap w s))
                @ [\<lparr>t = k, msg = m, userIds = [], filter_fn = None\<rparr>]\<rparr>\<rparr>)
            \<and> trace (f s m w) = trace w)
       \<and> (\<not> chan_closed (output (heap w s)) \<and> \<not> length (buf (output (heap w s))) < cap (output (heap w s)) \<longrightarrow>
            heap (f s m w) = heap w
            \<and> trace (f s m w) = trace w @
                [if errorHandler w
                 then ErrorHandler s (WriteChannelFull \<lparr>t = k, msg = m, userIds = [], filter_fn = None\<rparr>)
                 else Println NilFuncCall])
       \<and> (chan_closed (output (heap w s)) \<longrightarrow>
            heap (f s m w) = heap w \<and> trace (f s m w) = trace w @ [Println SendOnClosedChannel])"
  using assms
  by (auto simp: Write_def WriteBinary_def writeMessage_cases set_output_def emit_def)

theorem write_never_blocks_witness:
  "output (heap (Write 0 [1] queues) 0) = \<lparr>buf = [\<lparr>t = TextMessage, msg = [1], userIds = [], filter_fn = None\<rparr>], cap = 1, chan_closed = False\<rparr>
   \<and> trace (Write 0 [1] queues) = []
   \<and> heap (Write 1 [1] queues) = heap queues
   \<and> trace (Write 1 [1] queues) = [ErrorHandler 1 (WriteChannelFull \<lparr>t = TextMessage, msg = [1], userIds = [], filter_fn = None\<rparr>)]
   \<and> heap (Write 2 [1] queues) = heap queues
   \<and> trace (Write 2 [1] queues) = [Println SendOnClosedChannel]"
  using write_never_blocks [of Write TextMessage queues 0 "[1]"]
    write_never_blocks [of Write TextMessage queues 1 "[1]"]
    write_never_blocks [of Write TextMessage queues 2 "[1]"]
  by (simp add: queues_def session_full_def session_shut_def session_kv_def)

text \<open>
  C3 as stated fails: session 2's queue is full and closed, and \<^verbatim>\<open>Write\<close> calls no
  error callback; session 3's queue is closed with room, and the envelope is not
  appended; session 1's queue is full and open, and with no callback set none is called.
\<close>

theorem write_on_closed_queue:
  "length (buf (output (heap queues 2))) = cap (output (heap queues 2))
   \<and> errorHandler queues
   \<and> trace (Write 2 [1] queues) = [Println SendOnClosedChannel]
   \<and> length (buf (output (heap queues 3))) < cap (output (heap queues 3))
   \<and> output (heap (Write 3 [1] queues) 3) = output (heap queues 3)
   \<and> length (buf (output (heap queues 1))) = cap (output (heap queues 1))
   \<and> \<not> chan_closed (output (heap queues 1))
   \<and> trace (Write 1 [1] (queues\<lparr>errorHandler := False\<rparr>)) = [Println NilFuncCall]"
  by (simp add: queues_def session_full_def session_shut_def session_shut_room_def session_kv_def
      Write_def writeMessage_cases emit_def set_output_def)

subsection \<open>Broadcast\<close>

lemma deliver_append: "deliver e (xs @ ys) w = deliver e ys (deliver e xs w)"
  by (induction xs arbitrary: w) auto

lemma deliver_heap:
  "heap (deliver e ds w) a =
     (heap w a)\<lparr>output := (output (heap w a))\<lparr>buf := buf (output (heap w a)) @ replicate (count_list ds a) e\<rparr>\<rparr>"
proof (induction ds arbitrary: w)
  case Nil
  show ?case by simp
next
  case (Cons s ds)
  show ?case
    by (simp add: Cons.IH enqueue_def set_output_def replicate_append_same)
qed

lemma deliver_rest: "trace (deliver e ds w) = trace w \<and> errorHandler (deliver e ds w) = errorHandler w"
  by (induction ds arbitrary: w) (auto simp: enqueue_def set_output_def)

lemma send_each_reject: "\<not> accepted e s \<Longrightarrow> send_each e (s # ss) w = send_each e ss w"
  by (simp add: accepted_def split: option.splits)

lemma send_each_accept:
  "accepted e s \<Longrightarrow> send_each e (s # ss) w =
     (if chan_closed (output (heap w s)) then Panicked SendOnClosedChannel w
      else if length (buf (output (heap w s))) < cap (output (heap w s))
      then send_each e ss (enqueue e s w)
      else Blocked s w)"
  by (simp add: accepted_def chan_send_def enqueue_def split: option.splits)

declare send_each.simps(2) [simp del]

lemma send_each_prefix:
  "\<exists>ds. prefix ds (filter (accepted e) ss) \<and> state_of (send_each e ss w) = deliver e ds w
        \<and> ((\<exists>w'. send_each e ss w = Done w') \<longrightarrow> ds = filter (accepted e) ss)"
proof (induction ss arbitrary: w)
  case Nil
  show ?case by simp
next
  case (Cons s ss)
  show ?case
  proof (cases "accepted e s")
    case False
    then show ?thesis using Cons.IH [of w] by (simp add: send_each_reject)
  next
    case acc: True
    show ?thesis
    proof (cases "\<not> chan_closed (output (heap w s)) \<and> length (buf (output (heap w s))) < cap (output (heap w s))")
      case True
      obtain ds where ds: "prefix ds (filter (accepted e) ss)"
        "state_of (send_each e ss (enqueue e s w)) = deliver e ds (enqueue e s w)"
        "(\<exists>w'. send_each e ss (enqueue e s w) = Done w') \<longrightarrow> ds = filter (accepted e) ss"
        using Cons.IH [of "enqueue e s w"] by blast
      have "prefix (s # ds) (filter (accepted e) (s # ss))" using ds(1) acc by simp
      moreover have "state_of (send_each e (s # ss) w) = deliver e (s # ds) w"
        using ds(2) acc True by (simp add: send_each_accept)
      moreover have "(\<exists>w'. send_each e (s # ss) w = Done w') \<longrightarrow> s # ds = filter (accepted e) (s # ss)"
        using ds(3) acc True by (simp add: send_each_accept)
      ultimately show ?thesis by blast
    next
      case False
      have "state_of (send_each e (s # ss) w) = deliver e [] w"
        using acc False by (auto simp: send_each_accept)
      moreover have "\<not> (\<exists>w'. send_each e (s # ss) w = Done w')"
        using acc False by (auto simp: send_each_accept)
      ultimately show ?thesis by (metis prefix_bot.bot_least)
    qed
  qed
qed

lemma has_room_enqueue:
  assumes "has_room w (s # ds)"
  shows "has_room (enqueue e s w) ds"
  unfolding has_room_def
proof
  fix a assume a: "a \<in> set ds"
  have "\<not> chan_closed (output (heap w a))
        \<and> length (buf (output (heap w a))) + count_list (s # ds) a \<le> cap (output (heap w a))"
    using assms a by (simp add: has_room_def)
  then show "\<not> chan_closed (output (heap (enqueue e s w) a))
        \<and> length (buf (output (heap (enqueue e s w) a))) + count_list ds a
           \<le> cap (output (heap (enqueue e s w) a))"
    by (auto simp: enqueue_def set_output_def)
qed

lemma has_room_deliver:
  assumes "has_room w (xs @ ys)"
  shows "has_room (deliver e xs w) ys"
  unfolding has_room_def
proof
  fix a assume a: "a \<in> set ys"
  have "\<not> chan_closed (output (heap w a))
        \<and> length (buf (output (heap w a))) + count_list (xs @ ys) a \<le> cap (output (heap w a))"
    using assms a by (simp add: has_room_def)
  then show "\<not> chan_closed (output (heap (deliver e xs w) a))
        \<and> length (buf (output (heap (deliver e xs w) a))) + count_list ys a
           \<le> cap (output (heap (deliver e xs w) a))"
    by (simp add: deliver_heap)
qed

lemma has_room_prefix:
  assumes "has_room w (xs @ ys)"
  shows "has_room w xs"
  unfolding has_room_def
proof
  fix a assume "a \<in> set xs"
  then have "\<not> chan_closed (output (heap w a))
        \<and> length (buf (output (heap w a))) + count_list (xs @ ys) a \<le> cap (output (heap w a))"
    using assms by (simp add: has_room_def)
  then show "\<not> chan_closed (output (heap w a))
        \<and> length (buf (output (heap w a))) + count_list xs a \<le> cap (output (heap w a))"
    by simp
qed

lemma send_each_room:
  "has_room w (filter (accepted e) ss) \<Longrightarrow> send_each e ss w = Done (deliver e (filter (accepted e) ss) w)"
proof (induction ss arbitrary: w)
  case Nil
  show ?case by simp
next
  case (Cons s ss)
  show ?case
  proof (cases "accepted e s")
    case False
    then show ?thesis using Cons by (simp add: send_each_reject)
  next
    case True
    then have r: "has_room w (s # filter (accepted e) ss)" using Cons.prems by simp
    then have "\<not> chan_closed (output (heap w s))
               \<and> length (buf (output (heap w s))) < cap (output (heap w s))"
      by (simp add: has_room_def)
    then show ?thesis
      using True Cons.IH [OF has_room_enqueue [OF r]] by (simp add: send_each_accept)
  qed
qed

lemma visit_list_simps:
  "visit_list h e [] = []"
  "visit_list h e (u # us) = filter (accepted e) (lookup h u) @ visit_list h e us"
  by (simp_all add: visit_list_def)

lemma send_all_room:
  "has_room w (visit_list h e ks) \<Longrightarrow> send_all h e ks w = Done (deliver e (visit_list h e ks) w)"
proof (induction ks arbitrary: w)
  case Nil
  show ?case by (simp add: visit_list_simps)
next
  case (Cons k ks)
  have r: "has_room w (filter (accepted e) (lookup h k) @ visit_list h e ks)"
    using Cons.prems by (simp add: visit_list_simps)
  have 1: "send_each e (lookup h k) w = Done (deliver e (filter (accepted e) (lookup h k)) w)"
    using send_each_room [OF has_room_prefix [OF r]] .
  show ?case
    using 1 Cons.IH [OF has_room_deliver [OF r]]
    by (simp add: visit_list_simps deliver_append)
qed

lemma send_users_all: "send_users h e us w = send_all h e us w"
proof (induction us arbitrary: w)
  case Nil
  show ?case by simp
next
  case (Cons u us)
  show ?case
  proof (cases "sessions h u")
    case None
    then show ?thesis using Cons by (simp add: lookup_def)
  next
    case (Some ss)
    then show ?thesis using Cons by (simp add: lookup_def split: outcome.splits)
  qed
qed

lemma send_all_prefix:
  "\<exists>ds. prefix ds (visit_list h e ks) \<and> state_of (send_all h e ks w) = deliver e ds w
        \<and> ((\<exists>w'. send_all h e ks w = Done w') \<longrightarrow> ds = visit_list h e ks)"
proof (induction ks arbitrary: w)
  case Nil
  show ?case by (simp add: visit_list_simps)
next
  case (Cons k ks)
  obtain d1 where d1: "prefix d1 (filter (accepted e) (lookup h k))"
    "state_of (send_each e (lookup h k) w) = deliver e d1 w"
    "(\<exists>w'. send_each e (lookup h k) w = Done w') \<longrightarrow> d1 = filter (accepted e) (lookup h k)"
    using send_each_prefix [of e "lookup h k" w] by blast
  show ?case
  proof (cases "send_each e (lookup h k) w")
    case (Done w')
    then have w': "w' = deliver e d1 w" and full: "d1 = filter (accepted e) (lookup h k)"
      using d1 by auto
    obtain d2 where d2: "prefix d2 (visit_list h e ks)"
      "state_of (send_all h e ks w') = deliver e d2 w'"
      "(\<exists>w''. send_all h e ks w' = Done w'') \<longrightarrow> d2 = visit_list h e ks"
      using Cons.IH [of w'] by blast
    have "prefix (d1 @ d2) (visit_list h e (k # ks))"
      using d2(1) full by (simp add: visit_list_simps)
    moreover have "state_of (send_all h e (k # ks) w) = deliver e (d1 @ d2) w"
      using Done d2(2) w' by (simp add: deliver_append)
    moreover have "(\<exists>w''. send_all h e (k # ks) w = Done w'') \<longrightarrow> d1 @ d2 = visit_list h e (k # ks)"
      using Done d2(3) full by (simp add: visit_list_simps)
    ultimately show ?thesis by blast
  next
    case (Blocked s w')
    have "prefix d1 (visit_list h e (k # ks))"
      using d1(1) by (simp add: visit_list_simps)
    moreover have "state_of (send_all h e (k # ks) w) = deliver e d1 w"
      using Blocked d1(2) by simp
    moreover have "\<not> (\<exists>w''. send_all h e (k # ks) w = Done w'')"
      using Blocked by simp
    ultimately show ?thesis by blast
  next
    case (Panicked p w')
    have "prefix d1 (visit_list h e (k # ks))"
      using d1(1) by (simp add: visit_list_simps)
    moreover have "state_of (send_all h e (k # ks) w) = deliver e d1 w"
      using Panicked d1(2) by simp
    moreover have "\<not> (\<exists>w''. send_all h e (k # ks) w = Done w'')"
      using Panicked by simp
    ultimately show ?thesis by blast
  qed
qed

lemma prefix_count_list: "prefix ds xs \<Longrightarrow> count_list ds a \<le> count_list xs a"
  by (auto simp: prefix_def)

lemma visits_eq: "visits h ks e = visit_list h e (if userIds e = [] then ks else userIds e)"
  by (simp add: visits_def visit_list_def)

lemma on_broadcast_open:
  "\<not> Closed h \<Longrightarrow> on_broadcast h ks e w = send_all h e (if userIds e = [] then ks else userIds e) w"
  by (simp add: on_broadcast_def send_users_all)

lemma lookup_absent: "sessions h u = None \<Longrightarrow> lookup h u = []"
  by (simp add: lookup_def)

lemma set_visits:
  assumes "set ks = dom (sessions h)"
  shows "set (visits h ks e) = spec_recipients h e"
proof (cases "userIds e = []")
  case True
  have "\<And>s u. s \<in> set (lookup h u) \<Longrightarrow> u \<in> dom (sessions h)"
  proof -
    fix s u assume "s \<in> set (lookup h u)"
    then show "u \<in> dom (sessions h)"
      by (cases "sessions h u") (simp_all add: lookup_def dom_def)
  qed
  then have "\<And>s. (\<exists>u \<in> set ks. s \<in> set (lookup h u)) = (\<exists>u. s \<in> set (lookup h u))"
    using assms by blast
  then show ?thesis using True
    by (simp add: visits_def spec_recipients_def set_eq_iff conj_commute)
next
  case False
  then show ?thesis
    by (auto simp: visits_def spec_recipients_def)
qed

text \<open>
  What a broadcast does on an open hub; \<open>ks\<close> is the order in which Go
  visits the registry's keys. The sessions the loop sends to (\<open>visits\<close>) are exactly the
  sessions registered under a listed user identifier that the filter accepts (all of
  them when there is no filter), or, when the list is empty, every registered session the
  filter accepts; an identifier the registry does not hold contributes nothing. Whatever
  the outcome, a session's queue only ever grows by copies of \<open>e\<close>, at most one per
  visit, so a session outside that set receives nothing; when the broadcast finishes
  every visit has enqueued \<open>e\<close>; and it finishes whenever the visited queues are open and
  have room.
\<close>

lemma broadcast_visits:
  assumes "\<not> Closed h" and "distinct ks" and "set ks = dom (sessions h)"
  shows "set (visits h ks e) = spec_recipients h e
     \<and> (\<exists>n \<le> count_list (visits h ks e) a.
          heap (state_of (on_broadcast h ks e w)) a =
            (heap w a)\<lparr>output := (output (heap w a))\<lparr>buf := buf (output (heap w a)) @ replicate n e\<rparr>\<rparr>
          \<and> ((\<exists>w'. on_broadcast h ks e w = Done w') \<longrightarrow> n = count_list (visits h ks e) a))
     \<and> trace (state_of (on_broadcast h ks e w)) = trace w
     \<and> (has_room w (visits h ks e) \<longrightarrow> (\<exists>w'. on_broadcast h ks e w = Done w'))"
proof -
  let ?us = "if userIds e = [] then ks else userIds e"
  obtain ds where ds: "prefix ds (visit_list h e ?us)"
    "state_of (send_all h e ?us w) = deliver e ds w"
    "(\<exists>w'. send_all h e ?us w = Done w') \<longrightarrow> ds = visit_list h e ?us"
    using send_all_prefix [of h e ?us w] by blast
  have ob: "on_broadcast h ks e w = send_all h e ?us w"
    using assms(1) by (rule on_broadcast_open)
  have vs: "visits h ks e = visit_list h e ?us" by (rule visits_eq)
  have 1: "set (visits h ks e) = spec_recipients h e"
    using assms(3) by (rule set_visits)
  have 2: "\<exists>n \<le> count_list (visits h ks e) a.
          heap (state_of (on_broadcast h ks e w)) a =
            (heap w a)\<lparr>output := (output (heap w a))\<lparr>buf := buf (output (heap w a)) @ replicate n e\<rparr>\<rparr>
          \<and> ((\<exists>w'. on_broadcast h ks e w = Done w') \<longrightarrow> n = count_list (visits h ks e) a)"
  proof (intro exI conjI)
    show "count_list ds a \<le> count_list (visits h ks e) a"
      using ds(1) vs by (simp add: prefix_count_list)
    show "heap (state_of (on_broadcast h ks e w)) a =
            (heap w a)\<lparr>output := (output (heap w a))\<lparr>buf := buf (output (heap w a)) @ replicate (count_list ds a) e\<rparr>\<rparr>"
      using ds(2) ob by (simp add: deliver_heap)
    show "(\<exists>w'. on_broadcast h ks e w = Done w') \<longrightarrow> count_list ds a = count_list (visits h ks e) a"
      using ds(3) ob vs by simp
  qed
  have 3: "trace (state_of (on_broadcast h ks e w)) = trace w"
    using ds(2) ob by (simp add: deliver_rest)
  have 4: "has_room w (visits h ks e) \<longrightarrow> (\<exists>w'. on_broadcast h ks e w = Done w')"
    using send_all_room [of w h e ?us] ob vs by simp
  show ?thesis using 1 2 3 4 by blast
qed


text \<open>
  C2. The loop's send to a session's queue is the blocking send. Session 1 is registered
  under user a, its queue is open and full, and an error callback is set: the broadcast
  stops at the send to session 1, with nothing dropped and no callback called, where the
  non-blocking \<^verbatim>\<open>writeMessage\<close> on the same state returns at once and reports the drop.
\<close>

theorem hub_send_blocks_on_full_queue:
  "\<not> Closed hub_full
   \<and> \<not> chan_closed (output (heap queues 1))
   \<and> length (buf (output (heap queues 1))) = cap (output (heap queues 1))
   \<and> on_broadcast hub_full [''a''] hello queues = Blocked 1 queues
   \<and> on_broadcast hub_full [''a''] (hello\<lparr>userIds := [''a'']\<rparr>) queues = Blocked 1 queues
   \<and> writeMessage 1 hello queues = emit (ErrorHandler 1 (WriteChannelFull hello)) queues"
  by (simp add: on_broadcast_def hub_full_def Closed_def lookup_def queues_def session_full_def
      session_kv_def hello_def send_each.simps chan_send_def writeMessage_cases)

subsection \<open>The registry\<close>

lemma remove_session_eq:
  "remove_session s (pre @ rest) (length pre) rest = pre @ remove1 s rest"
proof (induction rest arbitrary: pre)
  case Nil
  show ?case by simp
next
  case (Cons s1 rest)
  show ?case
  proof (cases "s1 = s")
    case True
    then show ?thesis by simp
  next
    case False
    then show ?thesis using Cons.IH [of "pre @ [s1]"] by simp
  qed
qed

lemma remove_session_remove1: "remove_session s ss 0 ss = remove1 s ss"
  using remove_session_eq [of s "[]" ss] by simp

lemma on_register_sessions:
  "\<not> Closed h \<Longrightarrow> sessions (on_register h s w)
     = (sessions h)(userId (heap w s) \<mapsto> lookup h (userId (heap w s)) @ [s])"
  by (auto simp: on_register_def lookup_def Let_def)

lemma on_unRegister_sessions:
  "\<not> Closed h \<Longrightarrow> sessions (on_unRegister h s w)
     = (case sessions h (userId (heap w s)) of
          None \<Rightarrow> sessions h
        | Some ss \<Rightarrow> (sessions h)(userId (heap w s) \<mapsto> remove1 s ss))"
  by (simp add: on_unRegister_def remove_session_remove1 Let_def split: option.splits)

lemma on_register_closed: "Closed (on_register h s w) = Closed h"
  by (simp add: on_register_def Closed_def Let_def)

lemma on_unRegister_closed: "Closed (on_unRegister h s w) = Closed h"
  by (simp add: on_unRegister_def Closed_def Let_def split: option.splits)

lemma lookup_on_register:
  "\<not> Closed h \<Longrightarrow> lookup (on_register h s w) u
     = (if u = userId (heap w s) then lookup h u @ [s] else lookup h u)"
  by (simp add: on_register_sessions lookup_def)

lemma lookup_on_unRegister:
  "\<not> Closed h \<Longrightarrow> lookup (on_unRegister h s w) u
     = (if u = userId (heap w s) then remove1 s (lookup h u) else lookup h u)"
  by (simp add: on_unRegister_sessions lookup_def split: option.splits)

lemma holds_register:
  "holds w h live \<Longrightarrow> holds w (on_register h s w) (add_mset s live)"
  by (simp add: holds_def on_register_closed lookup_on_register)

lemma holds_unRegister:
  "holds w h live \<Longrightarrow> holds w (on_unRegister h s w) (live - {#s#})"
  by (simp add: holds_def on_unRegister_closed lookup_on_unRegister filter_diff_mset)

lemma Run_registry:
  "holds w h (mset live) \<Longrightarrow> paired live evs \<Longrightarrow>
     \<exists>h'. Run evs h w = Done (h', w)
        \<and> holds w h' (mset live + mset (registered evs) - mset (unregistered evs))"
proof (induction live evs arbitrary: h rule: paired.induct)
  case (1 live)
  then show ?case by simp
next
  case (2 live s evs)
  have "holds w (on_register h s w) (mset (s # live))"
    using holds_register [OF "2.prems"(1)] by simp
  then show ?case using "2.IH" [of "on_register h s w"] "2.prems"(2) by simp
next
  case (3 live s evs)
  have in_live: "s \<in># mset live" using "3.prems"(2) by simp
  have "holds w (on_unRegister h s w) (mset (remove1 s live))"
    using holds_unRegister [OF "3.prems"(1)] by simp
  then obtain h' where h': "Run evs (on_unRegister h s w) w = Done (h', w)"
    "holds w h' (mset (remove1 s live) + mset (registered evs) - mset (unregistered evs))"
    using "3.IH" [of "on_unRegister h s w"] "3.prems"(2) by auto
  have "mset (remove1 s live) + mset (registered evs) - mset (unregistered evs)
        = mset live + mset (registered (UnRegister s # evs)) - mset (unregistered (UnRegister s # evs))"
    using in_live by (simp add: multiset_eq_iff)
  then show ?case using h' by simp
qed simp_all

lemma closed_ignores: "Closed h \<Longrightarrow> on_register h s w = h \<and> on_unRegister h s w = h"
  by (simp add: on_register_def on_unRegister_def)

lemma holds_NewHub: "holds w NewHub (mset [])"
  by (simp add: holds_def NewHub_def Closed_def lookup_def)

text \<open>
  C5. On an open hub, register appends the session to the list under its
  user identifier (an absent slot reads as the empty list and is created), and
  unregister removes the first occurrence of that very session from the list under its
  user identifier (nothing, when the slot or the session is not there). On a hub that is
  not open both leave the hub as it is. For a sequence of register and unregister events
  in which every unregister names a session that is registered at that moment, run from
  a new hub, the loop comes to the end of the sequence and the sessions under every
  user identifier are, counted with multiplicity, the sessions of that user registered
  minus those unregistered.
\<close>

theorem registry_content:
  "(\<not> Closed h \<longrightarrow>
      sessions (on_register h s w) = (sessions h)(userId (heap w s) \<mapsto> lookup h (userId (heap w s)) @ [s])
      \<and> sessions (on_unRegister h s w) =
          (case sessions h (userId (heap w s)) of
             None \<Rightarrow> sessions h
           | Some ss \<Rightarrow> (sessions h)(userId (heap w s) \<mapsto> remove1 s ss)))
   \<and> (Closed h \<longrightarrow> on_register h s w = h \<and> on_unRegister h s w = h)
   \<and> (paired [] evs \<longrightarrow>
        (\<exists>h'. Run evs NewHub w = Done (h', w)
           \<and> (\<forall>u. mset (lookup h' u) =
                 filter_mset (\<lambda>s. userId (heap w s) = u)
                   (mset (registered evs) - mset (unregistered evs)))))"
proof -
  have "paired [] evs \<longrightarrow>
        (\<exists>h'. Run evs NewHub w = Done (h', w)
           \<and> (\<forall>u. mset (lookup h' u) =
                 filter_mset (\<lambda>s. userId (heap w s) = u)
                   (mset (registered evs) - mset (unregistered evs))))"
    using Run_registry [OF holds_NewHub, of evs w] by (auto simp: holds_def)
  then show ?thesis
    by (simp add: on_register_sessions on_unRegister_sessions closed_ignores)
qed

theorem registry_content_witness:
  "\<not> Closed hub_three
   \<and> lookup (on_register hub_three 2 three) ''a'' = [1, 2, 2]
   \<and> lookup (on_unRegister hub_three 2 three) ''a'' = [1]
   \<and> Closed (hub_three\<lparr>closed := 1\<rparr>)
   \<and> on_register (hub_three\<lparr>closed := 1\<rparr>) 2 three = hub_three\<lparr>closed := 1\<rparr>
   \<and> paired [] scenario
   \<and> (\<exists>h'. Run scenario NewHub three = Done (h', three)
         \<and> mset (lookup h' ''a'') = {#1#} \<and> mset (lookup h' ''b'') = {#3#})"
proof -
  have o: "\<not> Closed hub_three" by (simp add: Closed_def hub_three_def)
  have c: "Closed (hub_three\<lparr>closed := 1\<rparr>)" by (simp add: Closed_def)
  have p: "paired [] scenario" by (simp add: scenario_def)
  have u: "userId (heap three 1) = ''a''" "userId (heap three 2) = ''a''" "userId (heap three 3) = ''b''"
    by (simp_all add: three_def session_kv_def)
  have d: "mset (registered scenario) - mset (unregistered scenario) = {#1, 3#}"
    by (simp add: scenario_def)
  have l: "sessions hub_three ''a'' = Some [1, 2]" by (simp add: hub_three_def)
  note th = registry_content [of hub_three 2 three scenario]
  note tc = registry_content [of "hub_three\<lparr>closed := 1\<rparr>" 2 three scenario]
  obtain h' where r: "Run scenario NewHub three = Done (h', three)"
    and m: "\<And>u. mset (lookup h' u) = filter_mset (\<lambda>s. userId (heap three s) = u) {#1, 3#}"
    using th p d by auto
  have "mset (lookup h' ''a'') = {#1#}" "mset (lookup h' ''b'') = {#3#}"
    using m [of "''a''"] m [of "''b''"] u by simp_all
  then have e: "\<exists>h'. Run scenario NewHub three = Done (h', three)
         \<and> mset (lookup h' ''a'') = {#1#} \<and> mset (lookup h' ''b'') = {#3#}"
    using r by blast
  have "lookup (on_register hub_three 2 three) ''a'' = [1, 2, 2]"
    "lookup (on_unRegister hub_three 2 three) ''a'' = [1]"
    using th o u l by (simp_all add: lookup_def)
  moreover have "on_register (hub_three\<lparr>closed := 1\<rparr>) 2 three = hub_three\<lparr>closed := 1\<rparr>"
    using tc c by simp
  ultimately show ?thesis using o c p e by blast
qed

subsection \<open>Pushing a message\<close>

lemma send_all_empty_registry: "sessions h = Map.empty \<Longrightarrow> send_all h e ks w = Done w"
  by (induction ks) (simp_all add: lookup_def)

lemma on_broadcast_empty_registry: "sessions h = Map.empty \<Longrightarrow> on_broadcast h ks e w = Done w"
  by (simp add: on_broadcast_def send_users_all send_all_empty_registry)



text \<open>
  C10. The broker holds no hub for the application identifier. \<^verbatim>\<open>PushMessage\<close> returns
  no error; \<^verbatim>\<open>getHub\<close> has allocated a new hub, started its loop and stored its
  pointer in the broker's map under that identifier; the hub is open and its loop holds
  the envelope; and when the loop deals with that envelope, the registry being empty,
  no session's queue changes.
\<close>

theorem PushMessage_new_hub:
  assumes "hubs b app = None"
  shows "PushMessage b app us m fn =
           Returns None (b\<lparr>hubs := (hubs b)(app \<mapsto> next_hub b),
             hub_at := (hub_at b)(next_hub b := NewHub\<lparr>loop_at := AtSelect,
               broadcast := [\<lparr>t = TextMessage, msg = m, userIds = us, filter_fn = fn\<rparr>]\<rparr>),
             next_hub := Suc (next_hub b)\<rparr>)
       \<and> \<not> Closed (NewHub\<lparr>loop_at := AtSelect,
               broadcast := [\<lparr>t = TextMessage, msg = m, userIds = us, filter_fn = fn\<rparr>]\<rparr>)
       \<and> Run [Broadcast ks] (NewHub\<lparr>loop_at := AtSelect,
               broadcast := [\<lparr>t = TextMessage, msg = m, userIds = us, filter_fn = fn\<rparr>]\<rparr>) w
           = Done (NewHub\<lparr>loop_at := AtSelect\<rparr>, w)"
proof -
  have "sessions (NewHub\<lparr>loop_at := AtSelect,
      broadcast := [\<lparr>t = TextMessage, msg = m, userIds = us, filter_fn = fn\<rparr>]\<rparr>) = Map.empty"
    by (simp add: NewHub_def)
  then have "Run [Broadcast ks] (NewHub\<lparr>loop_at := AtSelect,
               broadcast := [\<lparr>t = TextMessage, msg = m, userIds = us, filter_fn = fn\<rparr>]\<rparr>) w
           = Done (NewHub\<lparr>loop_at := AtSelect\<rparr>, w)"
    by (simp add: on_broadcast_empty_registry) (simp add: NewHub_def)
  moreover have "\<not> Closed (NewHub\<lparr>loop_at := AtSelect,
               broadcast := [\<lparr>t = TextMessage, msg = m, userIds = us, filter_fn = fn\<rparr>]\<rparr>)"
    by (simp add: NewHub_def Closed_def)
  moreover have "PushMessage b app us m fn =
           Returns None (b\<lparr>hubs := (hubs b)(app \<mapsto> next_hub b),
             hub_at := (hub_at b)(next_hub b := NewHub\<lparr>loop_at := AtSelect,
               broadcast := [\<lparr>t = TextMessage, msg = m, userIds = us, filter_fn = fn\<rparr>]\<rparr>),
             next_hub := Suc (next_hub b)\<rparr>)"
    using assms
    by (simp add: PushMessage_def getHub_def send_broadcast_def Let_def NewHub_def Closed_def)
  ultimately show ?thesis by blast
qed

theorem PushMessage_new_hub_witness:
  "hubs broker ''fresh'' = None
   \<and> PushMessage broker ''fresh'' [''a''] [104, 105] None =
       Returns None (broker\<lparr>hubs := (hubs broker)(''fresh'' \<mapsto> 2),
         hub_at := (hub_at broker)(2 := NewHub\<lparr>loop_at := AtSelect, broadcast := [hello\<lparr>userIds := [''a'']\<rparr>]\<rparr>),
         next_hub := 3\<rparr>)
   \<and> Run [Broadcast []] (NewHub\<lparr>loop_at := AtSelect, broadcast := [hello\<lparr>userIds := [''a'']\<rparr>]\<rparr>) three
       = Done (NewHub\<lparr>loop_at := AtSelect\<rparr>, three)"
proof -
  have f: "hubs broker ''fresh'' = None" by (simp add: broker_def)
  have n: "next_hub broker = 2" by (simp add: broker_def)
  have e: "hello\<lparr>userIds := [''a'']\<rparr> = \<lparr>t = TextMessage, msg = [104, 105], userIds = [''a''], filter_fn = None\<rparr>"
    by (simp add: hello_def)
  show ?thesis
    using f PushMessage_new_hub [OF f, of "[''a'']" "[104, 105]" None "[]" three]
    by (simp add: n e)
qed

subsection \<open>The write loop\<close>

lemma set_conn_same: "set_conn s (conn (heap w s)) w = w"
  by (simp add: set_conn_def)

lemma writeRaw_refused:
  "conn_closed (conn (heap w s)) \<or> accepts (conn (heap w s)) = 0 \<Longrightarrow>
     writeRaw s e w =
       (Some (if conn_closed (conn (heap w s)) then UseOfClosedConn else WriteFailed), w)"
  by (auto simp: writeRaw_def WriteMessage_def set_conn_same)

lemma writeRaw_trace: "trace (snd (writeRaw s e w)) = trace w \<and> errorHandler (snd (writeRaw s e w)) = errorHandler w"
  by (simp add: writeRaw_def WriteMessage_def conn_Close_def set_conn_def)

lemma writeRaw_trace':
  assumes "writeRaw s e w = (r, w')"
  shows "trace w' = trace w" and "errorHandler w' = errorHandler w"
  using writeRaw_trace [of s e w] assms by simp_all

lemma idle_pump:
  assumes "conn_closed (conn (heap w s))" and "buf (output (heap w s)) = []"
    and "\<not> chan_closed (output (heap w s))"
  shows "writePump sched s w = Running w"
proof (induction sched)
  case Nil
  show ?case by simp
next
  case (Cons c cs)
  have "pump_iter c s w = Continue w"
    using assms by (cases c) (simp_all add: pump_iter_def chan_recv_def ping_def writeRaw_refused)
  then show ?case using Cons.IH by simp
qed

lemma pump_after_close_envelope:
  assumes "buf (output (heap w s)) = [close_envelope]" and "\<not> chan_closed (output (heap w s))"
    and "\<not> conn_closed (conn (heap w s))" and "0 < accepts (conn (heap w s))"
    and "\<not> close_err (conn (heap w s))"
  shows "writePump (OnOutput # sched) s w =
           Running (set_conn s ((conn (heap w s))\<lparr>wire := wire (conn (heap w s)) @ [(CloseMessage, [])],
                       accepts := accepts (conn (heap w s)) - 1, conn_closed := True\<rparr>)
                     (set_output s ((output (heap w s))\<lparr>buf := []\<rparr>) w))"
proof -
  let ?w1 = "set_output s ((output (heap w s))\<lparr>buf := []\<rparr>) w"
  let ?w2 = "set_conn s ((conn (heap w s))\<lparr>wire := wire (conn (heap w s)) @ [(CloseMessage, [])],
                       accepts := accepts (conn (heap w s)) - 1, conn_closed := True\<rparr>) ?w1"
  have c1: "conn (heap ?w1 s) = conn (heap w s)" by (simp add: set_output_def)
  have "writeRaw s close_envelope ?w1 = (None, ?w2)"
    using assms(3-5) by (simp add: writeRaw_def WriteMessage_def conn_Close_def close_envelope_def c1)
  then have "pump_iter OnOutput s w = Continue ?w2"
    using assms(1,2) by (simp add: pump_iter_def chan_recv_def)
  moreover have "writePump sched s ?w2 = Running ?w2"
    using assms(2) by (intro idle_pump) (simp_all add: set_conn_def set_output_def)
  ultimately show ?thesis by simp
qed

text \<open>
  C7. \<^verbatim>\<open>Close\<close> enqueues a close envelope through \<^verbatim>\<open>writeMessage\<close>. Session 1 has
  an open, empty queue and a healthy connection, and the host calls \<^verbatim>\<open>Close\<close> on it.
  When the write loop takes the close envelope it writes the close frame and closes the
  connection, and then goes on looping: whatever the scheduler offers afterwards, the
  loop is still running and has not signalled its exit.
\<close>

theorem close_envelope_leaves_pump_running:
  "buf (output (heap (Close 1 three) 1)) = [close_envelope]
   \<and> (\<exists>w. writePump (OnOutput # sched) 1 (Close 1 three) = Running w
         \<and> wire (conn (heap w 1)) = [(CloseMessage, [])] \<and> conn_closed (conn (heap w 1))
         \<and> trace w = [])"
proof -
  have "writePump (OnOutput # sched) 1 (Close 1 three) =
           Running (set_conn 1 ((conn (heap (Close 1 three) 1))\<lparr>wire := wire (conn (heap (Close 1 three) 1)) @ [(CloseMessage, [])],
                       accepts := accepts (conn (heap (Close 1 three) 1)) - 1, conn_closed := True\<rparr>)
                     (set_output 1 ((output (heap (Close 1 three) 1))\<lparr>buf := []\<rparr>) (Close 1 three)))"
    by (rule pump_after_close_envelope)
      (simp_all add: Close_def writeMessage_cases three_def session_kv_def set_output_def open_conn_def)
  then show ?thesis
    by (simp add: Close_def writeMessage_cases three_def session_kv_def open_conn_def
        set_conn_def set_output_def)
qed

text \<open>
  C8, as amended. When the write of a dequeued envelope fails and an error callback is
  set, the loop calls the callback once with that error, leaves the loop and signals
  its exit, whatever the scheduler would have offered next. A keepalive tick writes
  a ping and goes on with the loop, and neither the ping nor the close frame written on
  a closed queue adds an event: their write errors are dropped.
\<close>

theorem envelope_write_error_reported:
  assumes "buf (output (heap w s)) = m # ms"
    and "fst (writeRaw s m (set_output s ((output (heap w s))\<lparr>buf := ms\<rparr>) w)) = Some err"
    and "errorHandler w"
  shows "(\<exists>w'. writePump (OnOutput # sched) s w = Exited w'
            \<and> trace w' = trace w @ [ErrorHandler s err, SessionExited s])
       \<and> writePump (OnTick # sched) s w = writePump sched s (ping s w)
       \<and> trace (ping s w) = trace w
       \<and> trace (close s w) = trace w"
proof -
  let ?w1 = "set_output s ((output (heap w s))\<lparr>buf := ms\<rparr>) w"
  obtain w2 where w2: "writeRaw s m ?w1 = (Some err, w2)"
    using assms(2) by (cases "writeRaw s m ?w1") simp
  have t2: "trace w2 = trace w" "errorHandler w2"
    using writeRaw_trace' [OF w2] assms(3) by (simp_all add: set_output_def)
  have "pump_iter OnOutput s w = Break (emit (ErrorHandler s err) w2)"
    using assms(1) w2 t2 by (simp add: pump_iter_def chan_recv_def call_errorHandler_def)
  then have "\<exists>w'. writePump (OnOutput # sched) s w = Exited w'
            \<and> trace w' = trace w @ [ErrorHandler s err, SessionExited s]"
    using t2 by (simp add: emit_def set_conn_def)
  moreover have "writePump (OnTick # sched) s w = writePump sched s (ping s w)"
    by (simp add: pump_iter_def)
  moreover have "trace (ping s w) = trace w" "trace (close s w) = trace w"
    by (simp_all add: ping_def close_def writeRaw_trace)
  ultimately show ?thesis by blast
qed

theorem envelope_write_error_reported_witness:
  "(\<exists>w'. writePump [OnOutput, OnTick] 0 failing = Exited w'
       \<and> trace w' = [ErrorHandler 0 WriteFailed, SessionExited 0])
   \<and> writePump [OnTick] 0 failing = Running failing"
proof -
  have b: "buf (output (heap failing 0)) = [hello]" by (simp add: failing_def)
  have r: "accepts (conn (heap (set_output 0 ((output (heap failing 0))\<lparr>buf := []\<rparr>) failing) 0)) = 0"
    by (simp add: failing_def set_output_def open_conn_def)
  have f: "fst (writeRaw 0 hello (set_output 0 ((output (heap failing 0))\<lparr>buf := []\<rparr>) failing)) = Some WriteFailed"
    using r by (simp add: writeRaw_refused failing_def set_output_def open_conn_def)
  have h: "errorHandler failing" by (simp add: failing_def)
  have p: "ping 0 failing = failing"
    by (simp add: ping_def writeRaw_refused failing_def open_conn_def)
  have t: "trace failing = []" by (simp add: failing_def)
  show ?thesis
    using envelope_write_error_reported [OF b f h, of "[OnTick]"]
      envelope_write_error_reported [OF b f h, of "[]"] p t
    by simp
qed

text \<open>
  C8 as stated fails for the keepalive ping: the transport refuses the ping's write, an
  error callback is set, and the loop reports nothing and keeps running.
\<close>

theorem ping_write_error_dropped:
  "fst (writeRaw 0 ping_envelope broken) = Some WriteFailed
   \<and> errorHandler broken
   \<and> pump_iter OnTick 0 broken = Continue broken
   \<and> writePump [OnTick, OnTick, OnTick] 0 broken = Running broken
   \<and> trace broken = []"
proof -
  have a: "accepts (conn (heap broken 0)) = 0" "\<not> conn_closed (conn (heap broken 0))"
    by (simp_all add: broken_def open_conn_def)
  have p: "ping 0 broken = broken"
    using a by (simp add: ping_def writeRaw_refused)
  show ?thesis
    using a p by (simp add: writeRaw_refused pump_iter_def) (simp add: broken_def)
qed

subsection \<open>Shutdown of a hub\<close>






















end
